theory Spec2Isabelle
  imports Main
begin

section \<open>Data model\<close>

text \<open>
  The repository holds two programs over the same kind of record: \<^verbatim>\<open>src/index.tsx\<close>
  (object \<^verbatim>\<open>MockBackend\<close> and the automation effect of \<^verbatim>\<open>App\<close>) and
  \<^verbatim>\<open>src/unnamed/part_000\<close> (object \<^verbatim>\<open>API\<close>). Their \<^verbatim>\<open>Lead\<close> interfaces share
  eleven fields; the first adds \<^verbatim>\<open>profile_url\<close>, the second the optional \<^verbatim>\<open>notes\<close>.
  The shared fields are the record \<open>lead\<close>, the two interfaces its extensions. The
  fields \<^verbatim>\<open>id\<close> and \<^verbatim>\<open>notes\<close> are named \<open>id_lead\<close> and \<open>notes_lead\<close>; an
  optional field that is absent is \<open>None\<close>.

  An instant is the reading of the clock in milliseconds; the source stores its ISO-8601
  rendering (\<^verbatim>\<open>new Date().toISOString()\<close>), which is read back unchanged. The clock
  reading, the random token of \<^verbatim>\<open>Math.random().toString(36).substr(2, 9)\<close> and the
  random number of \<^verbatim>\<open>Math.floor(Math.random() * 100)\<close> are arguments of the functions
  that use them.
\<close>

datatype platform = Instagram | Facebook

datatype lead_status = New | Contacted | Converted | Lost | Processing

type_synonym instant = nat

record lead =
  id_lead :: string
  username :: string
  full_name :: string
  email :: string
  phone :: string
  source_platform :: platform
  captured_from :: string
  captured_content :: string
  timestamp :: instant
  status :: lead_status
  last_contacted :: "instant option"

record lead_v1 = lead +
  profile_url :: string

record lead_v2 = lead +
  notes_lead :: "string option"

text \<open>
  \<^verbatim>\<open>Partial<Lead>\<close>: every property may be absent (\<open>None\<close>). A property that is
  present holds a value of the field's type. Property \<^verbatim>\<open>x\<close> is the field \<open>p_x\<close>.
\<close>

record partial_lead =
  p_id :: "string option"
  p_username :: "string option"
  p_full_name :: "string option"
  p_email :: "string option"
  p_phone :: "string option"
  p_source_platform :: "platform option"
  p_captured_from :: "string option"
  p_captured_content :: "string option"
  p_timestamp :: "instant option"
  p_status :: "lead_status option"
  p_last_contacted :: "instant option"

record partial_v1 = partial_lead +
  p_profile_url :: "string option"

record partial_v2 = partial_lead +
  p_notes :: "string option"

section \<open>The store\<close>

text \<open>
  \<^verbatim>\<open>localStorage\<close> holds one text under \<^verbatim>\<open>STORAGE_KEY\<close>, or nothing (\<open>None\<close>).
  \<open>Json ls\<close> is the text \<^verbatim>\<open>JSON.stringify(ls)\<close>, which \<^verbatim>\<open>JSON.parse\<close> reads back
  as \<open>ls\<close>; \<open>Malformed s\<close> is a text \<open>s\<close> that is not JSON: \<^verbatim>\<open>JSON.parse\<close> throws
  a \<^verbatim>\<open>SyntaxError\<close> on it. The empty text is falsy, so the conditional of
  \<^verbatim>\<open>getLeads\<close> never parses it.
\<close>

datatype error = SyntaxError

datatype 'l stored = Json "'l list" | Malformed string

type_synonym 'l storage = "'l stored option"

fun getLeads :: "'l storage \<Rightarrow> error + 'l list" where
  "getLeads None = Inr []"
| "getLeads (Some (Malformed s)) = (if s = [] then Inr [] else Inl SyntaxError)"
| "getLeads (Some (Json ls)) = Inr ls"

definition saveLeads :: "'l list \<Rightarrow> 'l storage \<Rightarrow> 'l storage" where
  "saveLeads leads sto = Some (Json leads)"

section \<open>Helpers of the language\<close>

text \<open>\<^verbatim>\<open>Array.prototype.findIndex\<close>; the source's \<^verbatim>\<open>-1\<close> is \<open>None\<close>.\<close>

fun findIndex :: "('a \<Rightarrow> bool) \<Rightarrow> 'a list \<Rightarrow> nat option" where
  "findIndex P [] = None"
| "findIndex P (x # xs) = (if P x then Some 0 else map_option Suc (findIndex P xs))"

text \<open>\<^verbatim>\<open>a || d\<close> on an optional string: absent and empty are both falsy.\<close>

fun or_else :: "string option \<Rightarrow> string \<Rightarrow> string" where
  "or_else None d = d"
| "or_else (Some v) d = (if v = [] then d else v)"

text \<open>A property of an object literal overridden by a later spread of a partial record.\<close>

fun override :: "'a option \<Rightarrow> 'a \<Rightarrow> 'a" where
  "override None d = d"
| "override (Some v) d = v"

text \<open>Decimal rendering of a number, as string concatenation does it.\<close>

fun string_of_nat :: "nat \<Rightarrow> string" where
  "string_of_nat n =
     (if n < 10 then [char_of (48 + n)]
      else string_of_nat (n div 10) @ [char_of (48 + n mod 10)])"

text \<open>\<^verbatim>\<open>...leadData\<close> at the end of an object literal, on the shared fields.\<close>

definition spread :: "'b partial_lead_scheme \<Rightarrow> 'a lead_scheme \<Rightarrow> 'a lead_scheme" where
  "spread p l = l\<lparr>
     id_lead := override (p_id p) (id_lead l),
     username := override (p_username p) (username l),
     full_name := override (p_full_name p) (full_name l),
     email := override (p_email p) (email l),
     phone := override (p_phone p) (phone l),
     source_platform := override (p_source_platform p) (source_platform l),
     captured_from := override (p_captured_from p) (captured_from l),
     captured_content := override (p_captured_content p) (captured_content l),
     timestamp := override (p_timestamp p) (timestamp l),
     status := override (p_status p) (status l),
     last_contacted := (case p_last_contacted p of None \<Rightarrow> last_contacted l | Some t \<Rightarrow> Some t)\<rparr>"

section \<open>MockBackend (src/index.tsx)\<close>

text \<open>
  \<^verbatim>\<open>captureLead\<close>: the literal with its \<^verbatim>\<open>||\<close> defaults, then the spread of
  \<^verbatim>\<open>leadData\<close>; the template \<^verbatim>\<open>`${leadData.username}@example.com`\<close> renders an absent
  username as \<^verbatim>\<open>undefined\<close>. Arguments: the clock, the random token.
\<close>

definition captureLead_new :: "instant \<Rightarrow> string \<Rightarrow> partial_v1 \<Rightarrow> lead_v1" where
  "captureLead_new now token leadData =
     (let lit = \<lparr>
        id_lead = token,
        username = or_else (p_username leadData) ''unknown_user'',
        full_name = or_else (p_full_name leadData) ''Prospect'',
        email = or_else (p_email leadData)
                  ((case p_username leadData of None \<Rightarrow> ''undefined'' | Some u \<Rightarrow> u) @ ''@example.com''),
        phone = or_else (p_phone leadData) ''N/A'',
        source_platform = override (p_source_platform leadData) Instagram,
        captured_from = or_else (p_captured_from leadData) ''Comment'',
        captured_content = or_else (p_captured_content leadData) ''Interested in your product!'',
        timestamp = now,
        status = New,
        last_contacted = None,
        profile_url = or_else (p_profile_url leadData) ''#''\<rparr>
      in (spread leadData lit)\<lparr>profile_url := override (p_profile_url leadData) (profile_url lit)\<rparr>)"


text \<open>
  \<^verbatim>\<open>updateStatus\<close>: \<^verbatim>\<open>null\<close> is \<open>None\<close>; nothing is saved when the id is not found.
\<close>

definition set_status :: "instant \<Rightarrow> lead_status \<Rightarrow> 'a lead_scheme \<Rightarrow> 'a lead_scheme" where
  "set_status now st l =
     (let l1 = l\<lparr>status := st\<rparr>
      in if st = Contacted then l1\<lparr>last_contacted := Some now\<rparr> else l1)"

definition updateStatus ::
  "instant \<Rightarrow> string \<Rightarrow> lead_status \<Rightarrow> ('a lead_scheme) storage
     \<Rightarrow> error + (('a lead_scheme) option \<times> ('a lead_scheme) storage)" where
  "updateStatus now i st sto =
     (case getLeads sto of
        Inl e \<Rightarrow> Inl e
      | Inr leads \<Rightarrow>
          (case findIndex (\<lambda>l. id_lead l = i) leads of
             Some index \<Rightarrow>
               (let leads' = leads[index := set_status now st (leads ! index)]
                in Inr (Some (leads' ! index), saveLeads leads' sto))
           | None \<Rightarrow> Inr (None, sto)))"

section \<open>API (src/unnamed/part_000)\<close>

definition deleteLead ::
  "string \<Rightarrow> ('a lead_scheme) storage \<Rightarrow> error + (('a lead_scheme) list \<times> ('a lead_scheme) storage)" where
  "deleteLead i sto =
     (case getLeads sto of
        Inl e \<Rightarrow> Inl e
      | Inr ls \<Rightarrow>
          (let leads = filter (\<lambda>l. id_lead l \<noteq> i) ls
           in Inr (leads, saveLeads leads sto)))"

definition updateLead ::
  "'a lead_scheme \<Rightarrow> ('a lead_scheme) storage \<Rightarrow> error + (('a lead_scheme) list \<times> ('a lead_scheme) storage)" where
  "updateLead updated sto =
     (case getLeads sto of
        Inl e \<Rightarrow> Inl e
      | Inr ls \<Rightarrow>
          (let leads = map (\<lambda>l. if id_lead l = id_lead updated then updated else l) ls
           in Inr (leads, saveLeads leads sto)))"

text \<open>
  \<^verbatim>\<open>addLead\<close>: arguments are the clock, the random token and the random number of the
  placeholder username.
\<close>

definition addLead_new :: "instant \<Rightarrow> string \<Rightarrow> nat \<Rightarrow> partial_v2 \<Rightarrow> lead_v2" where
  "addLead_new now token r lead =
     (let lit = \<lparr>
        id_lead = token,
        username = or_else (p_username lead) (''user_'' @ string_of_nat r),
        full_name = or_else (p_full_name lead) ''New Prospect'',
        email = or_else (p_email lead) '''',
        phone = or_else (p_phone lead) '''',
        source_platform = override (p_source_platform lead) Instagram,
        captured_from = or_else (p_captured_from lead) ''Direct Message'',
        captured_content = or_else (p_captured_content lead) ''Interested in your product!'',
        timestamp = now,
        status = New,
        last_contacted = None,
        notes_lead = Some ''''\<rparr>
      in (spread lead lit)\<lparr>notes_lead := (case p_notes lead of None \<Rightarrow> notes_lead lit | Some n \<Rightarrow> Some n)\<rparr>)"

definition addLead ::
  "instant \<Rightarrow> string \<Rightarrow> nat \<Rightarrow> partial_v2 \<Rightarrow> lead_v2 storage \<Rightarrow> error + (lead_v2 list \<times> lead_v2 storage)" where
  "addLead now token r lead sto =
     (case getLeads sto of
        Inl e \<Rightarrow> Inl e
      | Inr leads \<Rightarrow>
          (let newLead = addLead_new now token r lead
           in Inr (newLead # leads, saveLeads (newLead # leads) sto)))"

section \<open>The automation scheduler (App of src/index.tsx)\<close>

text \<open>
  The state the automation effect reads and writes: the React state \<^verbatim>\<open>leads\<close>,
  \<^verbatim>\<open>isAutomating\<close> and \<^verbatim>\<open>lastSync\<close>, the store, and the timers of the host: the
  recurring timer of \<^verbatim>\<open>setInterval\<close> (the instant of its next run, \<open>None\<close> when
  cleared) and the one-shot callbacks registered by \<^verbatim>\<open>setTimeout\<close> (the instant each
  is due and the lead id its closure holds), in the order of registration.
\<close>

record app =
  leads :: "lead_v1 list"
  isAutomating :: bool
  lastSync :: instant
  localStorage :: "lead_v1 storage"
  interval :: "instant option"
  timeouts :: "(instant \<times> string) list"

text \<open>
  The callback of \<^verbatim>\<open>setInterval\<close>, run at instant \<open>now\<close>. \<^verbatim>\<open>find\<close> returns the first
  lead whose status is \<^verbatim>\<open>New\<close>; assigning to its \<^verbatim>\<open>status\<close> changes the element at
  that index of the copied array. The delays passed to \<^verbatim>\<open>setTimeout\<close> and
  \<^verbatim>\<open>setInterval\<close> (3000 and 8000 milliseconds) are named.
\<close>

definition followup_delay :: nat where
  "followup_delay = 3000"

definition tick_period :: nat where
  "tick_period = 8000"

definition interval_cb :: "instant \<Rightarrow> app \<Rightarrow> app" where
  "interval_cb now s =
     (case findIndex (\<lambda>l. status l = New) (leads s) of
        Some k \<Rightarrow>
          s\<lparr>leads := (leads s)[k := (leads s ! k)\<lparr>status := Processing\<rparr>],
            timeouts := timeouts s @ [(now + followup_delay, id_lead (leads s ! k))]\<rparr>
      | None \<Rightarrow> s)"

text \<open>
  The callback of \<^verbatim>\<open>setTimeout\<close> for lead id \<open>i\<close>, run at instant \<open>now\<close>. The
  result is the exception that escaped the callback, if any, and the state it left.
\<close>

definition timeout_cb :: "instant \<Rightarrow> string \<Rightarrow> app \<Rightarrow> error option \<times> app" where
  "timeout_cb now i s =
     (case updateStatus now i Contacted (localStorage s) of
        Inl e \<Rightarrow> (Some e, s)
      | Inr (updated, sto) \<Rightarrow>
          (case updated of
             None \<Rightarrow> (None, s\<lparr>localStorage := sto\<rparr>)
           | Some u \<Rightarrow>
               (case getLeads sto of
                  Inl e \<Rightarrow> (Some e, s\<lparr>localStorage := sto\<rparr>)
                | Inr ls \<Rightarrow> (None, s\<lparr>localStorage := sto, leads := ls, lastSync := now\<rparr>))))"

text \<open>
  \<^verbatim>\<open>setIsAutomating(!isAutomating)\<close> at instant \<open>now\<close>: the effect's cleanup clears the
  interval, and the effect runs again, setting a new interval when automation is on.
  The pending one-shot callbacks are not touched.
\<close>

definition toggle :: "instant \<Rightarrow> app \<Rightarrow> app" where
  "toggle now s =
     (let a = \<not> isAutomating s
      in s\<lparr>isAutomating := a, interval := (if a then Some (now + tick_period) else None)\<rparr>)"

text \<open>\<^verbatim>\<open>handleUpdateStatus\<close>, the manual status change of the lead table, at instant \<open>now\<close>.\<close>

definition handleUpdateStatus :: "instant \<Rightarrow> string \<Rightarrow> lead_status \<Rightarrow> app \<Rightarrow> error option \<times> app" where
  "handleUpdateStatus now i newStatus s =
     (case updateStatus now i newStatus (localStorage s) of
        Inl e \<Rightarrow> (Some e, s)
      | Inr (updated, sto) \<Rightarrow>
          (case getLeads sto of
             Inl e \<Rightarrow> (Some e, s\<lparr>localStorage := sto\<rparr>)
           | Inr ls \<Rightarrow> (None, s\<lparr>localStorage := sto, leads := ls\<rparr>)))"

text \<open>
  The host's timers. Each callback runs at the instant it is due, and timers run in the
  order of their due instants; of an interval run and a one-shot callback due at the same
  instant the interval, which was set earlier (8000 before, against 3000), runs first;
  one-shot callbacks due at the same instant run in the order of registration. After a
  run the interval is due again one period later.
  An exception that escapes a callback ends that callback only: the state it left stays.
\<close>

datatype timer = RunInterval instant | RunTimeout "instant \<times> string"

fun earliest :: "(instant \<times> string) list \<Rightarrow> (instant \<times> string) option" where
  "earliest [] = None"
| "earliest (x # xs) =
     (case earliest xs of
        None \<Rightarrow> Some x
      | Some y \<Rightarrow> if fst y < fst x then Some y else Some x)"

definition next_timer :: "instant \<Rightarrow> app \<Rightarrow> timer option" where
  "next_timer t s =
     (let i = (case interval s of None \<Rightarrow> None | Some d \<Rightarrow> if d \<le> t then Some d else None);
          m = (case earliest (timeouts s) of None \<Rightarrow> None
               | Some tm \<Rightarrow> if fst tm \<le> t then Some tm else None)
      in case i of
           None \<Rightarrow> map_option RunTimeout m
         | Some d \<Rightarrow>
             (case m of
                None \<Rightarrow> Some (RunInterval d)
              | Some tm \<Rightarrow> if d \<le> fst tm then Some (RunInterval d) else Some (RunTimeout tm)))"

definition run_interval :: "instant \<Rightarrow> app \<Rightarrow> app" where
  "run_interval d s = interval_cb d (s\<lparr>interval := Some (d + tick_period)\<rparr>)"

definition run_timeout :: "instant \<times> string \<Rightarrow> app \<Rightarrow> app" where
  "run_timeout tm s = snd (timeout_cb (fst tm) (snd tm) (s\<lparr>timeouts := remove1 tm (timeouts s)\<rparr>))"

text \<open>Time passes up to instant \<open>t\<close>: every timer due by then runs, in order.\<close>

function advance :: "instant \<Rightarrow> app \<Rightarrow> app" where
  "advance t s =
     (case next_timer t s of
        None \<Rightarrow> s
      | Some (RunInterval d) \<Rightarrow> advance t (run_interval d s)
      | Some (RunTimeout tm) \<Rightarrow> advance t (run_timeout tm s))"
  by pat_completeness auto
termination
proof (relation "measure (\<lambda>(t, s).
           length (filter (\<lambda>tm. fst tm \<le> t) (timeouts s))
           + 2 * (case interval s of None \<Rightarrow> 0
                  | Some d \<Rightarrow> if d \<le> t then (t - d) div tick_period + 1 else 0))")
  show "wf (measure (\<lambda>(t, s).
           length (filter (\<lambda>tm. fst tm \<le> t) (timeouts s))
           + 2 * (case interval s of None \<Rightarrow> 0
                  | Some d \<Rightarrow> if d \<le> t then (t - d) div tick_period + 1 else 0)))"
    by simp
next
  fix t :: instant and s :: app and x2 d
  assume nt: "next_timer t s = Some x2" and x2: "x2 = RunInterval d"
  from nt x2 have iv: "interval s = Some d" and dt: "d \<le> t"
    by (auto simp: next_timer_def Let_def split: option.splits if_splits)
  have len: "length (filter (\<lambda>tm. fst tm \<le> t) (timeouts (run_interval d s)))
               \<le> length (filter (\<lambda>tm. fst tm \<le> t) (timeouts s)) + 1"
    by (simp add: run_interval_def interval_cb_def split: option.splits)
  have iv': "interval (run_interval d s) = Some (d + tick_period)"
    by (simp add: run_interval_def interval_cb_def split: option.splits)
  have pos: "0 < tick_period"
    by (simp add: tick_period_def)
  have ar: "(if d + tick_period \<le> t then (t - (d + tick_period)) div tick_period + 1 else 0)
              = (t - d) div tick_period"
  proof (cases "d + tick_period \<le> t")
    case True
    then have "t - d = (t - (d + tick_period)) + tick_period" by arith
    then have "(t - d) div tick_period = ((t - (d + tick_period)) + tick_period) div tick_period"
      by (rule arg_cong)
    also have "\<dots> = (t - (d + tick_period)) div tick_period + 1"
      using pos by (simp only: div_add_self2)
    finally show ?thesis using True by (simp only: if_True)
  next
    case False
    with pos have "t - d < tick_period" by arith
    then have "(t - d) div tick_period = 0" by (rule div_less)
    with False show ?thesis by (simp only: if_False)
  qed
  show "((t, run_interval d s), (t, s)) \<in> measure (\<lambda>(t, s).
           length (filter (\<lambda>tm. fst tm \<le> t) (timeouts s))
           + 2 * (case interval s of None \<Rightarrow> 0
                  | Some d \<Rightarrow> if d \<le> t then (t - d) div tick_period + 1 else 0))"
  proof -
    have lin: "\<And>a b c :: nat. a \<le> b + 1 \<Longrightarrow> a + 2 * c < b + 2 * (c + 1)"
      by arith
    show ?thesis
      using lin [OF len] dt by (simp only: in_measure prod.case iv iv' ar option.case if_True)
  qed
next
  fix t :: instant and s :: app and x2 tm
  assume nt: "next_timer t s = Some x2" and x2: "x2 = RunTimeout tm"
  have mem: "\<And>xs y. earliest xs = Some y \<Longrightarrow> y \<in> set xs"
  proof -
    fix xs :: "(instant \<times> string) list" and y
    show "earliest xs = Some y \<Longrightarrow> y \<in> set xs"
      by (induction xs arbitrary: y) (auto split: option.splits if_splits)
  qed
  have rem: "\<And>xs. tm \<in> set xs \<Longrightarrow> fst tm \<le> t \<Longrightarrow>
               length (filter (\<lambda>tm. fst tm \<le> t) (remove1 tm xs))
                 < length (filter (\<lambda>tm. fst tm \<le> t) xs)"
  proof -
    fix xs :: "(instant \<times> string) list"
    show "tm \<in> set xs \<Longrightarrow> fst tm \<le> t \<Longrightarrow>
            length (filter (\<lambda>tm. fst tm \<le> t) (remove1 tm xs))
              < length (filter (\<lambda>tm. fst tm \<le> t) xs)"
      by (induction xs) auto
  qed
  from nt x2 have e: "earliest (timeouts s) = Some tm" and le: "fst tm \<le> t"
    by (auto simp: next_timer_def Let_def split: option.splits if_splits)
  have tmo: "timeouts (run_timeout tm s) = remove1 tm (timeouts s)"
    by (simp add: run_timeout_def timeout_cb_def Let_def split: sum.splits option.splits prod.splits)
  have ivl: "interval (run_timeout tm s) = interval s"
    by (simp add: run_timeout_def timeout_cb_def Let_def split: sum.splits option.splits prod.splits)
  show "((t, run_timeout tm s), (t, s)) \<in> measure (\<lambda>(t, s).
           length (filter (\<lambda>tm. fst tm \<le> t) (timeouts s))
           + 2 * (case interval s of None \<Rightarrow> 0
                  | Some d \<Rightarrow> if d \<le> t then (t - d) div tick_period + 1 else 0))"
    using rem [OF mem [OF e] le] by (simp add: tmo ivl)
qed

section \<open>Sequences of repository operations (API)\<close>

datatype op = Create instant string nat partial_v2 | Update lead_v2 | Delete string

fun apply_op :: "op \<Rightarrow> lead_v2 storage \<Rightarrow> error + (lead_v2 list \<times> lead_v2 storage)" where
  "apply_op (Create now token r p) sto = addLead now token r p sto"
| "apply_op (Update u) sto = updateLead u sto"
| "apply_op (Delete i) sto = deleteLead i sto"

fun run_ops :: "op list \<Rightarrow> lead_v2 storage \<Rightarrow> error + lead_v2 storage" where
  "run_ops [] sto = Inr sto"
| "run_ops (x # xs) sto =
     (case apply_op x sto of Inl e \<Rightarrow> Inl e | Inr (ls, sto') \<Rightarrow> run_ops xs sto')"

text \<open>
  The records last written, in the words of the specification: a create writes the new
  record under its id, an update of an id that is present writes the caller's record, a
  delete forgets the id.
\<close>

fun last_written :: "op list \<Rightarrow> (string \<rightharpoonup> lead_v2) \<Rightarrow> (string \<rightharpoonup> lead_v2)" where
  "last_written [] m = m"
| "last_written (Create now token r p # xs) m =
     last_written xs (m(id_lead (addLead_new now token r p) \<mapsto> addLead_new now token r p))"
| "last_written (Update u # xs) m =
     last_written xs (if m (id_lead u) = None then m else m(id_lead u \<mapsto> u))"
| "last_written (Delete i # xs) m = last_written xs (m(i := None))"

text \<open>Every create of the sequence yields an id that no record of the collection has.\<close>

fun fresh_creates :: "op list \<Rightarrow> string list \<Rightarrow> bool" where
  "fresh_creates [] live = True"
| "fresh_creates (Create now token r p # xs) live =
     (id_lead (addLead_new now token r p) \<notin> set live
      \<and> fresh_creates xs (id_lead (addLead_new now token r p) # live))"
| "fresh_creates (Update u # xs) live = fresh_creates xs live"
| "fresh_creates (Delete i # xs) live = fresh_creates xs (removeAll i live)"

section \<open>Predicates of the statements\<close>


text \<open>The store can be read and holds a lead with id \<open>i\<close>.\<close>

definition in_store :: "string \<Rightarrow> ('a lead_scheme) storage \<Rightarrow> bool" where
  "in_store i sto =
     (case getLeads sto of
        Inl e \<Rightarrow> False
      | Inr stored \<Rightarrow> findIndex (\<lambda>l. id_lead l = i) stored \<noteq> None)"

text \<open>Every displayed lead has its id in the store.\<close>

definition displayed_in_store :: "app \<Rightarrow> bool" where
  "displayed_in_store s = list_all (\<lambda>l. in_store (id_lead l) (localStorage s)) (leads s)"

section \<open>Sample data\<close>

definition no_fields_v1 :: partial_v1 where
  "no_fields_v1 = \<lparr>p_id = None, p_username = None, p_full_name = None, p_email = None,
     p_phone = None, p_source_platform = None, p_captured_from = None,
     p_captured_content = None, p_timestamp = None, p_status = None,
     p_last_contacted = None, p_profile_url = None\<rparr>"

definition no_fields_v2 :: partial_v2 where
  "no_fields_v2 = \<lparr>p_id = None, p_username = None, p_full_name = None, p_email = None,
     p_phone = None, p_source_platform = None, p_captured_from = None,
     p_captured_content = None, p_timestamp = None, p_status = None,
     p_last_contacted = None, p_notes = None\<rparr>"

text \<open>Three of the leads the first program seeds an empty store with.\<close>

definition sarah :: lead_v1 where
  "sarah = captureLead_new 1000 ''s4r4hb1z0''
     (no_fields_v1\<lparr>p_username := Some ''sarah_biz'', p_full_name := Some ''Sarah Smith'',
        p_source_platform := Some Facebook, p_captured_from := Some ''DM'',
        p_status := Some Contacted\<rparr>)"

definition mark :: lead_v1 where
  "mark = captureLead_new 1001 ''m4rkm1ll3''
     (no_fields_v1\<lparr>p_username := Some ''tech_guru'', p_full_name := Some ''Mark Miller'',
        p_source_platform := Some Instagram, p_captured_from := Some ''Comment'',
        p_status := Some New\<rparr>)"

definition elena :: lead_v1 where
  "elena = captureLead_new 1002 ''3l3n4r0s3''
     (no_fields_v1\<lparr>p_username := Some ''growth_expert'', p_full_name := Some ''Elena Rose'',
        p_source_platform := Some Instagram, p_captured_from := Some ''Ad'',
        p_status := Some New\<rparr>)"

text \<open>The first program with these leads loaded, automation on, the first tick due.\<close>

definition sample_app :: app where
  "sample_app = \<lparr>leads = [elena, mark, sarah], isAutomating = True, lastSync = 1003,
     localStorage = Some (Json [elena, mark, sarah]), interval = Some 9003, timeouts = []\<rparr>"

text \<open>The lead the second program seeds an empty store with first.\<close>

definition connor :: lead_v2 where
  "connor = addLead_new 2000 ''c0nn0r5ky'' 42
     (no_fields_v2\<lparr>p_full_name := Some ''Sarah Connor'', p_username := Some ''sconnor'',
        p_source_platform := Some Instagram, p_status := Some New\<rparr>)"

text \<open>Two partial records that bring the same id, and the two creates that take them.\<close>

definition ann :: partial_v2 where
  "ann = no_fields_v2\<lparr>p_id := Some ''dup'', p_full_name := Some ''Ann''\<rparr>"

definition bob :: partial_v2 where
  "bob = no_fields_v2\<lparr>p_id := Some ''dup'', p_full_name := Some ''Bob''\<rparr>"

definition two_creates :: "op list" where
  "two_creates = [Create 3000 ''t0k3n0001'' 1 ann, Create 3001 ''t0k3n0002'' 2 bob]"

text \<open>A create, an update of the created lead and a delete of an id that is not there.\<close>

definition three_ops :: "op list" where
  "three_ops = [Create 2000 ''c0nn0r5ky'' 42
       (no_fields_v2\<lparr>p_full_name := Some ''Sarah Connor'', p_username := Some ''sconnor'',
          p_source_platform := Some Instagram, p_status := Some New\<rparr>),
     Update (connor\<lparr>status := Converted\<rparr>),
     Delete ''gone'']"

section \<open>Facts about the helpers\<close>

lemma findIndex_Some:
  "findIndex P xs = Some k \<Longrightarrow> k < length xs \<and> P (xs ! k) \<and> (\<forall>j<k. \<not> P (xs ! j))"
proof (induction xs arbitrary: k)
  case Nil
  then show ?case by simp
next
  case (Cons x xs)
  show ?case
  proof (cases "P x")
    case True
    with Cons.prems show ?thesis by simp
  next
    case False
    with Cons.prems obtain k' where k': "findIndex P xs = Some k'" and k: "k = Suc k'"
      by auto
    from Cons.IH [OF k'] False k show ?thesis
      by (auto simp: nth_Cons split: nat.splits)
  qed
qed

lemma findIndex_None: "findIndex P xs = None \<longleftrightarrow> (\<forall>x\<in>set xs. \<not> P x)"
  by (induction xs) auto

lemma findIndex_map: "findIndex P (map f xs) = findIndex (\<lambda>x. P (f x)) xs"
  by (induction xs) auto

lemma findIndex_id_cong:
  "map id_lead xs = map id_lead ys \<Longrightarrow>
     findIndex (\<lambda>l. id_lead l = i) xs = findIndex (\<lambda>l. id_lead l = i) ys"
proof -
  assume eq: "map id_lead xs = map id_lead ys"
  have "findIndex (\<lambda>l. id_lead l = i) xs = findIndex (\<lambda>x. x = i) (map id_lead xs)"
    by (simp add: findIndex_map)
  also have "\<dots> = findIndex (\<lambda>x. x = i) (map id_lead ys)"
    by (simp only: eq)
  also have "\<dots> = findIndex (\<lambda>l. id_lead l = i) ys"
    by (simp add: findIndex_map)
  finally show ?thesis .
qed

lemma set_status_fields:
  "id_lead (set_status now st l) = id_lead l"
  "timestamp (set_status now st l) = timestamp l"
  "status (set_status now st l) = st"
  "last_contacted (set_status now st l) = (if st = Contacted then Some now else last_contacted l)"
  by (simp_all add: set_status_def Let_def)

lemma set_status_eq:
  "set_status now st l =
     l\<lparr>status := st, last_contacted := (if st = Contacted then Some now else last_contacted l)\<rparr>"
  by (simp add: set_status_def Let_def)

lemma map_update_same: "f y = f (xs ! k) \<Longrightarrow> map f (xs[k := y]) = map f xs"
proof (induction xs arbitrary: k)
  case Nil
  then show ?case by simp
next
  case (Cons x xs)
  then show ?case by (cases k) simp_all
qed

lemma map_id_set_status:
  "map id_lead (ls[k := set_status now st (ls ! k)]) = map id_lead ls"
  by (rule map_update_same) (simp add: set_status_fields)

lemma map_timestamp_set_status:
  "map timestamp (ls[k := set_status now st (ls ! k)]) = map timestamp ls"
  by (rule map_update_same) (simp add: set_status_fields)

lemma updateStatus_found:
  assumes "getLeads sto = Inr ls" and "findIndex (\<lambda>l. id_lead l = i) ls = Some k"
  shows "updateStatus now i st sto =
           Inr (Some (set_status now st (ls ! k)), Some (Json (ls[k := set_status now st (ls ! k)])))"
  using assms findIndex_Some [OF assms(2)]
  by (simp add: updateStatus_def saveLeads_def Let_def)

lemma updateStatus_missing:
  assumes "getLeads sto = Inr ls" and "findIndex (\<lambda>l. id_lead l = i) ls = None"
  shows "updateStatus now i st sto = Inr (None, sto)"
  using assms by (simp add: updateStatus_def)

lemma updateStatus_error:
  "getLeads sto = Inl e \<Longrightarrow> updateStatus now i st sto = Inl e"
  by (simp add: updateStatus_def)

section \<open>Status update: the frame\<close>

text \<open>
  Claim C10. For a collection that holds the id, \<^verbatim>\<open>updateStatus(id, status)\<close> changes
  only the first lead with that id: its status becomes the new one, its
  \<^verbatim>\<open>last_contacted\<close> becomes the current instant exactly when the new status is
  \<^verbatim>\<open>Contacted\<close>, and every other field of it, every other lead, the length and the
  order of the collection stay as they were. The changed lead is returned and the
  collection is saved.
\<close>

theorem C10_updateStatus_frame:
  assumes "getLeads sto = Inr ls" and "findIndex (\<lambda>l. id_lead l = i) ls = Some k"
  shows "\<exists>ls'. updateStatus now i st sto = Inr (Some (ls' ! k), Some (Json ls'))
           \<and> length ls' = length ls \<and> k < length ls \<and> id_lead (ls ! k) = i
           \<and> (\<forall>j<length ls. j \<noteq> k \<longrightarrow> ls' ! j = ls ! j)
           \<and> ls' ! k = (ls ! k)\<lparr>status := st,
                 last_contacted := (if st = Contacted then Some now else last_contacted (ls ! k))\<rparr>"
proof -
  let ?ls' = "ls[k := set_status now st (ls ! k)]"
  from findIndex_Some [OF assms(2)] have k: "k < length ls" and idk: "id_lead (ls ! k) = i"
    by simp_all
  have "updateStatus now i st sto = Inr (Some (?ls' ! k), Some (Json ?ls'))"
    using updateStatus_found [OF assms] k by simp
  moreover have "?ls' ! k = (ls ! k)\<lparr>status := st,
                 last_contacted := (if st = Contacted then Some now else last_contacted (ls ! k))\<rparr>"
    using k by (simp add: set_status_eq)
  moreover have "\<forall>j<length ls. j \<noteq> k \<longrightarrow> ?ls' ! j = ls ! j"
    by simp
  ultimately show ?thesis
    using k idk by (intro exI [of _ ?ls']) simp
qed

text \<open>The theorem at the seeded collection: Mark Miller is marked \<^verbatim>\<open>Converted\<close>.\<close>

theorem C10_witness:
  "updateStatus 5000 ''m4rkm1ll3'' Converted (Some (Json [elena, mark, sarah]))
     = Inr (Some (mark\<lparr>status := Converted\<rparr>),
            Some (Json [elena, mark\<lparr>status := Converted\<rparr>, sarah]))"
proof -
  have g: "getLeads (Some (Json [elena, mark, sarah])) = Inr [elena, mark, sarah]"
    by simp
  have f: "findIndex (\<lambda>l. id_lead l = ''m4rkm1ll3'') [elena, mark, sarah] = Some 1"
    by (simp add: elena_def mark_def sarah_def captureLead_new_def spread_def no_fields_v1_def)
  from C10_updateStatus_frame [OF g f, of 5000 Converted]
  obtain ls' where u: "updateStatus 5000 ''m4rkm1ll3'' Converted (Some (Json [elena, mark, sarah]))
                         = Inr (Some (ls' ! 1), Some (Json ls'))"
    and len: "length ls' = length [elena, mark, sarah]"
    and oth: "\<forall>j<length [elena, mark, sarah]. j \<noteq> 1 \<longrightarrow> ls' ! j = [elena, mark, sarah] ! j"
    and k: "ls' ! 1 = ([elena, mark, sarah] ! 1)\<lparr>status := Converted,
              last_contacted := (if Converted = Contacted then Some 5000
                                 else last_contacted ([elena, mark, sarah] ! 1))\<rparr>"
    by blast
  from oth have o0: "ls' ! 0 = elena" and o2: "ls' ! 2 = sarah"
    by simp_all
  from k have k1: "ls' ! 1 = mark\<lparr>status := Converted\<rparr>"
    by simp
  from len have "ls' = [ls' ! 0, ls' ! 1, ls' ! 2]"
    by (cases ls'; simp; (cases "tl ls'"; simp; (cases "tl (tl ls')"; simp)))
  with o0 k1 o2 have "ls' = [elena, mark\<lparr>status := Converted\<rparr>, sarah]"
    by simp
  with u k1 show ?thesis by simp
qed

section \<open>Operations on an id that the collection does not hold\<close>

lemma filter_missing: "i \<notin> id_lead ` set ls \<Longrightarrow> filter (\<lambda>l. id_lead l \<noteq> i) ls = ls"
  by (induction ls) auto

lemma map_missing:
  "id_lead u \<notin> id_lead ` set ls \<Longrightarrow> map (\<lambda>l. if id_lead l = id_lead u then u else l) ls = ls"
  by (induction ls) auto

lemma findIndex_missing: "i \<notin> id_lead ` set ls \<Longrightarrow> findIndex (\<lambda>l. id_lead l = i) ls = None"
  by (auto simp: findIndex_None)

text \<open>
  Claim C6. When the collection holds no lead with the id, \<^verbatim>\<open>deleteLead\<close> and
  \<^verbatim>\<open>updateLead\<close> return the collection as it was and save that same collection, and
  \<^verbatim>\<open>updateStatus\<close> returns \<^verbatim>\<open>null\<close> and leaves the store alone. None of them
  fails.
\<close>

theorem C6_missing_id_noop:
  assumes "getLeads sto = Inr ls"
    and "i \<notin> id_lead ` set ls"
    and "id_lead u \<notin> id_lead ` set ls"
  shows "deleteLead i sto = Inr (ls, Some (Json ls))
       \<and> updateLead u sto = Inr (ls, Some (Json ls))
       \<and> updateStatus now i st sto = Inr (None, sto)
       \<and> getLeads (Some (Json ls)) = Inr ls"
proof -
  have "deleteLead i sto = Inr (ls, Some (Json ls))"
    using assms(1) filter_missing [OF assms(2)]
    by (simp add: deleteLead_def saveLeads_def Let_def)
  moreover have "updateLead u sto = Inr (ls, Some (Json ls))"
    using assms(1) map_missing [OF assms(3)]
    by (simp add: updateLead_def saveLeads_def Let_def)
  moreover have "updateStatus now i st sto = Inr (None, sto)"
    by (rule updateStatus_missing [OF assms(1) findIndex_missing [OF assms(2)]])
  ultimately show ?thesis by simp
qed

text \<open>The theorem at the collection of the second program's first seeded lead.\<close>

theorem C6_witness:
  "deleteLead ''gone'' (Some (Json [connor])) = Inr ([connor], Some (Json [connor]))
   \<and> updateLead (connor\<lparr>id_lead := ''gone''\<rparr>) (Some (Json [connor]))
        = Inr ([connor], Some (Json [connor]))
   \<and> updateStatus 7 ''gone'' Lost (Some (Json [connor])) = Inr (None, Some (Json [connor]))"
proof -
  have g: "getLeads (Some (Json [connor])) = Inr [connor]"
    by simp
  have i: "''gone'' \<notin> id_lead ` set [connor]"
    by (simp add: connor_def addLead_new_def spread_def no_fields_v2_def)
  have u: "id_lead (connor\<lparr>id_lead := ''gone''\<rparr>) \<notin> id_lead ` set [connor]"
    by (simp add: connor_def addLead_new_def spread_def no_fields_v2_def)
  from C6_missing_id_noop [OF g i u, of 7 Lost] show ?thesis
    by simp
qed

section \<open>Loading the store\<close>



section \<open>Entering Contacted\<close>




section \<open>One tick of the scheduler\<close>

lemma interval_cb_None:
  "findIndex (\<lambda>l. status l = New) (leads s) = None \<Longrightarrow> interval_cb now s = s"
  by (simp add: interval_cb_def)

lemma interval_cb_Some:
  "findIndex (\<lambda>l. status l = New) (leads s) = Some k \<Longrightarrow>
     interval_cb now s =
       s\<lparr>leads := (leads s)[k := (leads s ! k)\<lparr>status := Processing\<rparr>],
         timeouts := timeouts s @ [(now + followup_delay, id_lead (leads s ! k))]\<rparr>"
  by (simp add: interval_cb_def)

text \<open>
  Claim C3. A tick changes at most one lead: when some lead is \<^verbatim>\<open>New\<close>, the first such
  lead in the current order is marked \<^verbatim>\<open>Processing\<close> (and its delayed step is
  registered), and nothing else changes; when no lead is \<^verbatim>\<open>New\<close> the tick changes
  nothing; a lead whose status is not \<^verbatim>\<open>New\<close>, so one in \<^verbatim>\<open>Processing\<close>, is left as
  it is by every tick.
\<close>

theorem C3_tick_one_lead:
  "((\<forall>l\<in>set (leads s). status l \<noteq> New) \<longrightarrow> interval_cb now s = s)
   \<and> ((\<exists>l\<in>set (leads s). status l = New) \<longrightarrow>
        (\<exists>k<length (leads s). status (leads s ! k) = New
           \<and> (\<forall>j<k. status (leads s ! j) \<noteq> New)
           \<and> interval_cb now s =
               s\<lparr>leads := (leads s)[k := (leads s ! k)\<lparr>status := Processing\<rparr>],
                 timeouts := timeouts s @ [(now + followup_delay, id_lead (leads s ! k))]\<rparr>))
   \<and> length (leads (interval_cb now s)) = length (leads s)
   \<and> (\<forall>j<length (leads s). status (leads s ! j) \<noteq> New \<longrightarrow>
         leads (interval_cb now s) ! j = leads s ! j)
   \<and> (\<forall>j<length (leads s). \<forall>j'<length (leads s).
         leads (interval_cb now s) ! j \<noteq> leads s ! j \<longrightarrow>
         leads (interval_cb now s) ! j' \<noteq> leads s ! j' \<longrightarrow> j = j')"
proof (cases "findIndex (\<lambda>l. status l = New) (leads s)")
  case None
  then have "interval_cb now s = s"
    by (rule interval_cb_None)
  moreover from None have "\<forall>l\<in>set (leads s). status l \<noteq> New"
    by (simp add: findIndex_None)
  ultimately show ?thesis by simp
next
  case (Some k)
  from findIndex_Some [OF Some] have k: "k < length (leads s)"
    and new: "status (leads s ! k) = New" and first: "\<forall>j<k. status (leads s ! j) \<noteq> New"
    by simp_all
  have eq: "interval_cb now s =
       s\<lparr>leads := (leads s)[k := (leads s ! k)\<lparr>status := Processing\<rparr>],
         timeouts := timeouts s @ [(now + followup_delay, id_lead (leads s ! k))]\<rparr>"
    by (rule interval_cb_Some [OF Some])
  have ls: "leads (interval_cb now s) = (leads s)[k := (leads s ! k)\<lparr>status := Processing\<rparr>]"
    by (simp add: eq)
  have some: "\<not> (\<forall>l\<in>set (leads s). status l \<noteq> New)"
    using k new nth_mem by blast
  have c2: "\<exists>k<length (leads s). status (leads s ! k) = New
           \<and> (\<forall>j<k. status (leads s ! j) \<noteq> New)
           \<and> interval_cb now s =
               s\<lparr>leads := (leads s)[k := (leads s ! k)\<lparr>status := Processing\<rparr>],
                 timeouts := timeouts s @ [(now + followup_delay, id_lead (leads s ! k))]\<rparr>"
    using k new first eq by blast
  have c3: "length (leads (interval_cb now s)) = length (leads s)"
    by (simp add: ls)
  have oth: "\<And>j. j \<noteq> k \<Longrightarrow> leads (interval_cb now s) ! j = leads s ! j"
    by (simp add: ls)
  have c4: "\<forall>j<length (leads s). status (leads s ! j) \<noteq> New \<longrightarrow>
         leads (interval_cb now s) ! j = leads s ! j"
    using new oth by metis
  have c5: "\<forall>j<length (leads s). \<forall>j'<length (leads s).
         leads (interval_cb now s) ! j \<noteq> leads s ! j \<longrightarrow>
         leads (interval_cb now s) ! j' \<noteq> leads s ! j' \<longrightarrow> j = j'"
    using oth by metis
  from some c2 c3 c4 c5 show ?thesis by blast
qed

text \<open>
  The theorem at the seeded state, where Elena Rose and Mark Miller are both \<^verbatim>\<open>New\<close>:
  the tick marks Elena Rose, the first of them; Mark Miller stays \<^verbatim>\<open>New\<close>.
\<close>

theorem C3_witness:
  "(\<exists>l\<in>set (leads sample_app). status l = New)
   \<and> leads (interval_cb 9003 sample_app) = [elena\<lparr>status := Processing\<rparr>, mark, sarah]
   \<and> status mark = New
   \<and> timeouts (interval_cb 9003 sample_app) = [(9003 + followup_delay, ''3l3n4r0s3'')]"
proof -
  have ex: "\<exists>l\<in>set (leads sample_app). status l = New"
    by (simp add: sample_app_def elena_def captureLead_new_def spread_def no_fields_v1_def)
  with C3_tick_one_lead [of sample_app 9003]
  obtain k where k: "k < length (leads sample_app)"
    and new: "status (leads sample_app ! k) = New"
    and first: "\<forall>j<k. status (leads sample_app ! j) \<noteq> New"
    and eq: "interval_cb 9003 sample_app =
               sample_app\<lparr>leads := (leads sample_app)[k := (leads sample_app ! k)\<lparr>status := Processing\<rparr>],
                 timeouts := timeouts sample_app @ [(9003 + followup_delay, id_lead (leads sample_app ! k))]\<rparr>"
    by blast
  have e0: "status (leads sample_app ! 0) = New"
    by (simp add: sample_app_def elena_def captureLead_new_def spread_def no_fields_v1_def)
  have "k = 0"
  proof (rule ccontr)
    assume "k \<noteq> 0"
    then have "0 < k" by simp
    with first e0 show False by blast
  qed
  with eq have "interval_cb 9003 sample_app =
               sample_app\<lparr>leads := (leads sample_app)[0 := (leads sample_app ! 0)\<lparr>status := Processing\<rparr>],
                 timeouts := timeouts sample_app @ [(9003 + followup_delay, id_lead (leads sample_app ! 0))]\<rparr>"
    by simp
  then have "leads (interval_cb 9003 sample_app) = [elena\<lparr>status := Processing\<rparr>, mark, sarah]"
    and "timeouts (interval_cb 9003 sample_app) = [(9003 + followup_delay, ''3l3n4r0s3'')]"
    by (simp_all add: sample_app_def elena_def captureLead_new_def spread_def no_fields_v1_def)
  moreover have "status mark = New"
    by (simp add: mark_def captureLead_new_def spread_def no_fields_v1_def)
  ultimately show ?thesis using ex by simp
qed

section \<open>The timers of the host\<close>

declare advance.simps [simp del]

lemma earliest_mem: "earliest xs = Some y \<Longrightarrow> y \<in> set xs"
  by (induction xs arbitrary: y) (auto split: option.splits if_splits)




lemma next_timer_interval:
  "next_timer t s = Some (RunInterval d) \<Longrightarrow> interval s = Some d \<and> d \<le> t"
  by (auto simp: next_timer_def Let_def split: option.splits if_splits)

lemma next_timer_timeout:
  "next_timer t s = Some (RunTimeout tm) \<Longrightarrow> tm \<in> set (timeouts s) \<and> fst tm \<le> t"
  by (auto simp: next_timer_def Let_def earliest_mem split: option.splits if_splits)


text \<open>An invariant of every timer that runs by instant \<open>t\<close> holds when time has passed.\<close>

lemma advance_invariant:
  assumes "P s"
    and "\<forall>s d. P s \<longrightarrow> interval s = Some d \<longrightarrow> d \<le> t \<longrightarrow> P (run_interval d s)"
    and "\<forall>s tm. P s \<longrightarrow> tm \<in> set (timeouts s) \<longrightarrow> fst tm \<le> t \<longrightarrow> P (run_timeout tm s)"
  shows "P (advance t s)"
  using assms
proof (induction t s rule: advance.induct)
  case (1 t s)
  show ?case
  proof (cases "next_timer t s")
    case None
    with "1.prems"(1) show ?thesis by (simp add: advance.simps [of t s])
  next
    case (Some x)
    show ?thesis
    proof (cases x)
      case (RunInterval d)
      with Some have nt: "next_timer t s = Some (RunInterval d)" by simp
      from next_timer_interval [OF nt] "1.prems"(1,2) have "P (run_interval d s)" by blast
      from "1.IH"(1) [OF Some RunInterval this "1.prems"(2,3)]
      show ?thesis by (simp add: advance.simps [of t s] nt)
    next
      case (RunTimeout tm)
      with Some have nt: "next_timer t s = Some (RunTimeout tm)" by simp
      from next_timer_timeout [OF nt] "1.prems"(1,3) have "P (run_timeout tm s)" by blast
      from "1.IH"(2) [OF Some RunTimeout this "1.prems"(2,3)]
      show ?thesis by (simp add: advance.simps [of t s] nt)
    qed
  qed
qed



section \<open>The delayed step on the store\<close>

lemma in_store_iff:
  "in_store i sto \<longleftrightarrow>
     (\<exists>ls k. getLeads sto = Inr ls \<and> findIndex (\<lambda>l. id_lead l = i) ls = Some k)"
  by (auto simp: in_store_def split: sum.splits)




lemma findIndex_set_status:
  "findIndex (\<lambda>l. id_lead l = i) (ls[m := set_status now st (ls ! m)])
     = findIndex (\<lambda>l. id_lead l = i) ls"
  by (rule findIndex_id_cong) (rule map_id_set_status)


lemma updateStatus_in_store:
  assumes "in_store i sto" and "updateStatus now j st sto = Inr (r, sto')"
  shows "in_store i sto'"
proof -
  from assms(1) obtain ls k where g: "getLeads sto = Inr ls"
    and f: "findIndex (\<lambda>l. id_lead l = i) ls = Some k"
    by (auto simp: in_store_iff)
  show ?thesis
  proof (cases "findIndex (\<lambda>l. id_lead l = j) ls")
    case None
    from updateStatus_missing [OF g None, of now st] assms(2) have "sto' = sto" by simp
    with assms(1) show ?thesis by simp
  next
    case (Some m)
    from updateStatus_found [OF g Some, of now st] assms(2)
    have "sto' = Some (Json (ls[m := set_status now st (ls ! m)]))" by simp
    with f show ?thesis by (simp add: in_store_iff findIndex_set_status)
  qed
qed

















section \<open>The displayed collection and the store\<close>

text \<open>
  The displayed leads have their ids in the store: this holds once the collection has
  been loaded, and ticks, delayed steps, manual status changes, the automation switch
  and the passage of time keep it.
\<close>

lemma in_store_member:
  assumes "getLeads sto = Inr ls" and "l \<in> set ls"
  shows "in_store (id_lead l) sto"
proof -
  from assms(2) have "findIndex (\<lambda>x. id_lead x = id_lead l) ls \<noteq> None"
    by (auto simp: findIndex_None)
  with assms(1) show ?thesis by (simp add: in_store_def)
qed

lemma displayed_in_store_loaded:
  "getLeads (localStorage s) = Inr (leads s) \<Longrightarrow> displayed_in_store s"
  by (auto simp: displayed_in_store_def list_all_iff intro: in_store_member)

lemma displayed_in_store_run_interval:
  assumes "displayed_in_store s"
  shows "displayed_in_store (run_interval d s)"
proof (cases "findIndex (\<lambda>l. status l = New) (leads s)")
  case None
  with assms show ?thesis
    by (simp add: run_interval_def interval_cb_def displayed_in_store_def)
next
  case (Some k)
  from findIndex_Some [OF Some] have k: "k < length (leads s)" by simp
  with assms have "in_store (id_lead (leads s ! k)) (localStorage s)"
    by (simp add: displayed_in_store_def list_all_length)
  moreover have "set ((leads s)[k := (leads s ! k)\<lparr>status := Processing\<rparr>])
                   \<subseteq> insert ((leads s ! k)\<lparr>status := Processing\<rparr>) (set (leads s))"
    by (rule set_update_subset_insert)
  ultimately show ?thesis
    using assms Some
    by (auto simp: run_interval_def interval_cb_def displayed_in_store_def list_all_iff)
qed

lemma displayed_in_store_update:
  assumes "displayed_in_store s" and "updateStatus now i st (localStorage s) = Inr (r, sto')"
  shows "list_all (\<lambda>l. in_store (id_lead l) sto') (leads s)"
  using assms by (auto simp: displayed_in_store_def list_all_iff intro: updateStatus_in_store)

lemma displayed_in_store_run_timeout:
  assumes "displayed_in_store s"
  shows "displayed_in_store (run_timeout tm s)"
proof (cases "updateStatus (fst tm) (snd tm) Contacted (localStorage s)")
  case (Inl e)
  with assms show ?thesis
    by (simp add: run_timeout_def timeout_cb_def displayed_in_store_def)
next
  case (Inr x)
  then obtain r sto' where u: "updateStatus (fst tm) (snd tm) Contacted (localStorage s) = Inr (r, sto')"
    by (cases x) simp
  note keep = displayed_in_store_update [OF assms u]
  show ?thesis
  proof (cases r)
    case None
    with u keep show ?thesis
      by (simp add: run_timeout_def timeout_cb_def displayed_in_store_def)
  next
    case (Some l)
    show ?thesis
    proof (cases "getLeads sto'")
      case (Inl e)
      with u Some keep show ?thesis
        by (simp add: run_timeout_def timeout_cb_def displayed_in_store_def)
    next
      case (Inr ls)
      then have "list_all (\<lambda>l. in_store (id_lead l) sto') ls"
        by (auto simp: list_all_iff intro: in_store_member)
      with u Some Inr show ?thesis
        by (simp add: run_timeout_def timeout_cb_def displayed_in_store_def)
    qed
  qed
qed

lemma displayed_in_store_toggle:
  "displayed_in_store s \<Longrightarrow> displayed_in_store (toggle now s)"
  by (simp add: toggle_def Let_def displayed_in_store_def)

lemma displayed_in_store_handleUpdateStatus:
  assumes "displayed_in_store s"
  shows "displayed_in_store (snd (handleUpdateStatus now i st s))"
proof (cases "updateStatus now i st (localStorage s)")
  case (Inl e)
  with assms show ?thesis
    by (simp add: handleUpdateStatus_def)
next
  case (Inr x)
  then obtain r sto' where u: "updateStatus now i st (localStorage s) = Inr (r, sto')"
    by (cases x) simp
  note keep = displayed_in_store_update [OF assms u]
  show ?thesis
  proof (cases "getLeads sto'")
    case (Inl e)
    with u keep show ?thesis
      by (simp add: handleUpdateStatus_def displayed_in_store_def)
  next
    case (Inr ls)
    then have "list_all (\<lambda>l. in_store (id_lead l) sto') ls"
      by (auto simp: list_all_iff intro: in_store_member)
    with u Inr show ?thesis
      by (simp add: handleUpdateStatus_def displayed_in_store_def)
  qed
qed

lemma displayed_in_store_advance:
  assumes "displayed_in_store s"
  shows "displayed_in_store (advance t s)"
proof (rule advance_invariant [where P = displayed_in_store])
  show "displayed_in_store s" by (rule assms)
next
  show "\<forall>s d. displayed_in_store s \<longrightarrow> interval s = Some d \<longrightarrow> d \<le> t \<longrightarrow>
          displayed_in_store (run_interval d s)"
    by (simp add: displayed_in_store_run_interval)
next
  show "\<forall>s tm. displayed_in_store s \<longrightarrow> tm \<in> set (timeouts s) \<longrightarrow> fst tm \<le> t \<longrightarrow>
          displayed_in_store (run_timeout tm s)"
    by (simp add: displayed_in_store_run_timeout)
qed

lemma displayed_in_store_selected:
  assumes "displayed_in_store s" and "findIndex (\<lambda>l. status l = New) (leads s) = Some k"
  shows "in_store (id_lead (leads s ! k)) (localStorage s)"
  using assms findIndex_Some [OF assms(2)]
  by (simp add: displayed_in_store_def list_all_length)

section \<open>From the tick to Contacted\<close>



section \<open>Automation switched off with a delayed step pending\<close>



section \<open>Sequences of create, update and delete\<close>

lemma apply_op_total:
  assumes "getLeads sto = Inr ls"
  shows "\<exists>ls'. apply_op x sto = Inr (ls', Some (Json ls'))
           \<and> ls' = (case x of
                Create now token r p \<Rightarrow> addLead_new now token r p # ls
              | Update u \<Rightarrow> map (\<lambda>l. if id_lead l = id_lead u then u else l) ls
              | Delete i \<Rightarrow> filter (\<lambda>l. id_lead l \<noteq> i) ls)"
  using assms
  by (cases x) (simp_all add: addLead_def updateLead_def deleteLead_def saveLeads_def Let_def)

lemma map_of_update_present:
  "map_of (map (\<lambda>l. (id_lead l, l)) (map (\<lambda>l. if id_lead l = id_lead u then u else l) ls))
     = (if map_of (map (\<lambda>l. (id_lead l, l)) ls) (id_lead u) = None
        then map_of (map (\<lambda>l. (id_lead l, l)) ls)
        else (map_of (map (\<lambda>l. (id_lead l, l)) ls))(id_lead u \<mapsto> u))"
  by (induction ls) (auto simp: fun_eq_iff)

lemma map_of_delete:
  "map_of (map (\<lambda>l. (id_lead l, l)) (filter (\<lambda>l. id_lead l \<noteq> i) ls))
     = (map_of (map (\<lambda>l. (id_lead l, l)) ls))(i := None)"
  by (induction ls) (auto simp: fun_eq_iff)

lemma map_id_update: "map id_lead (map (\<lambda>l. if id_lead l = id_lead u then u else l) ls) = map id_lead ls"
  by (induction ls) auto

lemma map_id_delete: "map id_lead (filter (\<lambda>l. id_lead l \<noteq> i) ls) = removeAll i (map id_lead ls)"
  by (induction ls) auto

text \<open>The ids of the collection are the ids written and not deleted since, whatever the ids.\<close>

lemma run_ops_ids:
  assumes "getLeads sto = Inr ls" and "id_lead ` set ls = dom m"
  shows "\<exists>ls'. run_ops ops sto = Inr (if ops = [] then sto else Some (Json ls'))
           \<and> getLeads (if ops = [] then sto else Some (Json ls')) = Inr ls'
           \<and> id_lead ` set ls' = dom (last_written ops m)"
  using assms
proof (induction ops arbitrary: sto ls m)
  case Nil
  then show ?case by simp
next
  case (Cons x xs)
  from apply_op_total [OF Cons.prems(1), of x] obtain l1
    where a: "apply_op x sto = Inr (l1, Some (Json l1))"
      and l1: "l1 = (case x of
                Create now token r p \<Rightarrow> addLead_new now token r p # ls
              | Update u \<Rightarrow> map (\<lambda>l. if id_lead l = id_lead u then u else l) ls
              | Delete i \<Rightarrow> filter (\<lambda>l. id_lead l \<noteq> i) ls)"
    by blast
  have g1: "getLeads (Some (Json l1)) = Inr l1" by simp
  have "\<exists>m1. last_written (x # xs) m = last_written xs m1 \<and> id_lead ` set l1 = dom m1"
  proof (cases x)
    case (Create now token r p)
    with l1 have s: "set l1 = insert (addLead_new now token r p) (set ls)" by simp
    have "last_written (x # xs) m
            = last_written xs (m(id_lead (addLead_new now token r p) \<mapsto> addLead_new now token r p))"
      by (simp add: Create)
    moreover have "id_lead ` set l1
            = dom (m(id_lead (addLead_new now token r p) \<mapsto> addLead_new now token r p))"
      using Cons.prems(2) by (simp add: s)
    ultimately show ?thesis by blast
  next
    case (Update u)
    with l1 have "map id_lead l1 = map id_lead ls" by (simp only: op.case map_id_update)
    then have "set (map id_lead l1) = set (map id_lead ls)" by (rule arg_cong)
    then have s: "id_lead ` set l1 = id_lead ` set ls" by (simp only: set_map)
    have "last_written (x # xs) m
            = last_written xs (if m (id_lead u) = None then m else m(id_lead u \<mapsto> u))"
      by (simp add: Update)
    moreover have "id_lead ` set l1 = dom (if m (id_lead u) = None then m else m(id_lead u \<mapsto> u))"
      using Cons.prems(2) by (auto simp: s)
    ultimately show ?thesis by blast
  next
    case (Delete i)
    with l1 have s: "set l1 = {l \<in> set ls. id_lead l \<noteq> i}" by simp
    have "last_written (x # xs) m = last_written xs (m(i := None))"
      by (simp add: Delete)
    moreover have "id_lead ` set l1 = dom (m(i := None))"
      using Cons.prems(2) by (auto simp: s)
    ultimately show ?thesis by blast
  qed
  then obtain m1 where m1: "last_written (x # xs) m = last_written xs m1"
    and d1: "id_lead ` set l1 = dom m1"
    by blast
  from Cons.IH [OF g1 d1] obtain ls'
    where r: "run_ops xs (Some (Json l1)) = Inr (if xs = [] then Some (Json l1) else Some (Json ls'))"
      and g: "getLeads (if xs = [] then Some (Json l1) else Some (Json ls')) = Inr ls'"
      and d: "id_lead ` set ls' = dom (last_written xs m1)"
    by blast
  from g have eq: "(if xs = [] then Some (Json l1) else Some (Json ls')) = Some (Json ls')"
    by (simp split: if_splits)
  from r eq a have "run_ops (x # xs) sto = Inr (Some (Json ls'))" by simp
  with d m1 show ?case by (intro exI [of _ ls']) simp
qed

text \<open>
  When every create brings an id that the collection does not hold, the ids stay distinct
  and each record is the one last written under its id.
\<close>

lemma run_ops_records:
  assumes "getLeads sto = Inr ls" and "distinct (map id_lead ls)"
    and "fresh_creates ops (map id_lead ls)"
  shows "\<exists>sto' ls'. run_ops ops sto = Inr sto' \<and> getLeads sto' = Inr ls'
           \<and> distinct (map id_lead ls')
           \<and> last_written ops (map_of (map (\<lambda>l. (id_lead l, l)) ls))
                = map_of (map (\<lambda>l. (id_lead l, l)) ls')"
  using assms
proof (induction ops arbitrary: sto ls)
  case Nil
  then show ?case by simp
next
  case (Cons x xs)
  from apply_op_total [OF Cons.prems(1), of x] obtain l1
    where a: "apply_op x sto = Inr (l1, Some (Json l1))"
      and l1: "l1 = (case x of
                Create now token r p \<Rightarrow> addLead_new now token r p # ls
              | Update u \<Rightarrow> map (\<lambda>l. if id_lead l = id_lead u then u else l) ls
              | Delete i \<Rightarrow> filter (\<lambda>l. id_lead l \<noteq> i) ls)"
    by blast
  have g1: "getLeads (Some (Json l1)) = Inr l1" by simp
  have step: "distinct (map id_lead l1) \<and> fresh_creates xs (map id_lead l1)
      \<and> last_written (x # xs) (map_of (map (\<lambda>l. (id_lead l, l)) ls))
           = last_written xs (map_of (map (\<lambda>l. (id_lead l, l)) l1))"
  proof (cases x)
    case (Create now token r p)
    with l1 have e: "l1 = addLead_new now token r p # ls" by simp
    from Cons.prems(2,3) show ?thesis by (simp add: e Create)
  next
    case (Update u)
    with l1 have e: "l1 = map (\<lambda>l. if id_lead l = id_lead u then u else l) ls" by simp
    have ids: "map id_lead l1 = map id_lead ls"
      by (simp only: e map_id_update)
    have mo: "map_of (map (\<lambda>l. (id_lead l, l)) l1)
                = (if map_of (map (\<lambda>l. (id_lead l, l)) ls) (id_lead u) = None
                   then map_of (map (\<lambda>l. (id_lead l, l)) ls)
                   else (map_of (map (\<lambda>l. (id_lead l, l)) ls))(id_lead u \<mapsto> u))"
      by (simp only: e map_of_update_present)
    from Cons.prems(2,3) show ?thesis by (simp add: ids mo Update)
  next
    case (Delete i)
    with l1 have e: "l1 = filter (\<lambda>l. id_lead l \<noteq> i) ls" by simp
    have ids: "map id_lead l1 = removeAll i (map id_lead ls)"
      by (simp only: e map_id_delete)
    have mo: "map_of (map (\<lambda>l. (id_lead l, l)) l1) = (map_of (map (\<lambda>l. (id_lead l, l)) ls))(i := None)"
      by (simp only: e map_of_delete)
    from Cons.prems(2,3) show ?thesis by (simp add: ids mo Delete distinct_removeAll)
  qed
  from Cons.IH [OF g1] step obtain sto' ls'
    where r: "run_ops xs (Some (Json l1)) = Inr sto'" and g: "getLeads sto' = Inr ls'"
      and d: "distinct (map id_lead ls')"
      and w: "last_written xs (map_of (map (\<lambda>l. (id_lead l, l)) l1))
                = map_of (map (\<lambda>l. (id_lead l, l)) ls')"
    by blast
  from r a have "run_ops (x # xs) sto = Inr sto'" by simp
  with g d w step show ?case by auto
qed

lemma map_of_distinct_ids:
  "distinct (map id_lead ls) \<Longrightarrow> l \<in> set ls \<Longrightarrow> map_of (map (\<lambda>l. (id_lead l, l)) ls) (id_lead l) = Some l"
  by (induction ls) (auto simp: rev_image_eqI)


text \<open>
  Claim C5, as stated, fails: two creates whose partial records bring the same id leave
  two records under that id, and the older one does not carry the values last written.
\<close>

theorem C5_counterexample:
  "run_ops two_creates None
     = Inr (Some (Json [addLead_new 3001 ''t0k3n0002'' 2 bob, addLead_new 3000 ''t0k3n0001'' 1 ann]))
   \<and> id_lead (addLead_new 3000 ''t0k3n0001'' 1 ann) = ''dup''
   \<and> last_written two_creates Map.empty ''dup'' = Some (addLead_new 3001 ''t0k3n0002'' 2 bob)
   \<and> addLead_new 3000 ''t0k3n0001'' 1 ann \<noteq> addLead_new 3001 ''t0k3n0002'' 2 bob"
  by (simp add: two_creates_def addLead_def saveLeads_def Let_def ann_def bob_def
      addLead_new_def spread_def no_fields_v2_def)

text \<open>
  Claim C5, amended. After any sequence of create, update and delete operations from the
  empty store, \<^verbatim>\<open>getLeads\<close> returns a collection whose ids are exactly the ids created
  and not deleted since; and when no create of the sequence yields an id that the
  collection already holds, the ids are distinct and each record carries the values last
  written for its id.
\<close>

theorem C5_list_after_operations:
  "\<exists>sto ls. run_ops ops None = Inr sto \<and> getLeads sto = Inr ls
     \<and> id_lead ` set ls = dom (last_written ops Map.empty)
     \<and> (fresh_creates ops [] \<longrightarrow>
          distinct (map id_lead ls)
          \<and> (\<forall>l\<in>set ls. last_written ops Map.empty (id_lead l) = Some l))"
proof -
  have g0: "getLeads (None :: lead_v2 storage) = Inr []" by simp
  from run_ops_ids [OF g0, of Map.empty ops] obtain ls
    where r: "run_ops ops None = Inr (if ops = [] then None else Some (Json ls))"
      and g: "getLeads (if ops = [] then None else Some (Json ls)) = Inr ls"
      and d: "id_lead ` set ls = dom (last_written ops Map.empty)"
    by auto
  have "fresh_creates ops [] \<longrightarrow>
          distinct (map id_lead ls)
          \<and> (\<forall>l\<in>set ls. last_written ops Map.empty (id_lead l) = Some l)"
  proof
    assume f: "fresh_creates ops []"
    from run_ops_records [OF g0, of ops] f obtain sto' ls'
      where r': "run_ops ops None = Inr sto'" and g': "getLeads sto' = Inr ls'"
        and d': "distinct (map id_lead ls')"
        and w: "last_written ops Map.empty = map_of (map (\<lambda>l. (id_lead l, l)) ls')"
      by auto
    from r r' g g' have "ls' = ls" by simp
    with d' w show "distinct (map id_lead ls)
          \<and> (\<forall>l\<in>set ls. last_written ops Map.empty (id_lead l) = Some l)"
      by (simp add: map_of_distinct_ids)
  qed
  with r g d show ?thesis by blast
qed



text \<open>
  The theorem at a create, an update of the created lead and a delete of an absent id:
  the collection holds the updated record.
\<close>

theorem C5_witness:
  "fresh_creates three_ops []
   \<and> run_ops three_ops None = Inr (Some (Json [connor\<lparr>status := Converted\<rparr>]))
   \<and> last_written three_ops Map.empty ''c0nn0r5ky'' = Some (connor\<lparr>status := Converted\<rparr>)"
proof -
  have f: "fresh_creates three_ops []"
    by (simp add: three_ops_def addLead_new_def spread_def no_fields_v2_def)
  have r: "run_ops three_ops None = Inr (Some (Json [connor\<lparr>status := Converted\<rparr>]))"
    by (simp add: three_ops_def connor_def addLead_def updateLead_def deleteLead_def
        saveLeads_def Let_def addLead_new_def spread_def no_fields_v2_def)
  from C5_list_after_operations [of three_ops]
  obtain sto ls where r': "run_ops three_ops None = Inr sto" and g: "getLeads sto = Inr ls"
    and w: "fresh_creates three_ops [] \<longrightarrow>
          distinct (map id_lead ls)
          \<and> (\<forall>l\<in>set ls. last_written three_ops Map.empty (id_lead l) = Some l)"
    by blast
  from r r' have "sto = Some (Json [connor\<lparr>status := Converted\<rparr>])"
    by (simp only: sum.inject)
  with g have "ls = [connor\<lparr>status := Converted\<rparr>]"
    by (simp only: getLeads.simps sum.inject)
  with w f
  have "\<forall>l\<in>set [connor\<lparr>status := Converted\<rparr>]. last_written three_ops Map.empty (id_lead l) = Some l"
    by blast
  then have "last_written three_ops Map.empty (id_lead (connor\<lparr>status := Converted\<rparr>))
               = Some (connor\<lparr>status := Converted\<rparr>)"
    by simp
  moreover have "id_lead (connor\<lparr>status := Converted\<rparr>) = ''c0nn0r5ky''"
    by (simp add: connor_def addLead_new_def spread_def no_fields_v2_def)
  ultimately show ?thesis using f r by simp
qed

section \<open>Creating a lead\<close>

lemma override_or_else: "override x (or_else x d) = override x d"
  by (cases x) simp_all

lemma override_idem: "override x (override x d) = override x d"
  by (cases x) simp_all

declare string_of_nat.simps [simp del]

lemma addLead_new_fields:
  "addLead_new now token r p = \<lparr>
      id_lead = override (p_id p) token,
      username = override (p_username p) (''user_'' @ string_of_nat r),
      full_name = override (p_full_name p) ''New Prospect'',
      email = override (p_email p) [],
      phone = override (p_phone p) [],
      source_platform = override (p_source_platform p) Instagram,
      captured_from = override (p_captured_from p) ''Direct Message'',
      captured_content = override (p_captured_content p) ''Interested in your product!'',
      timestamp = override (p_timestamp p) now,
      status = override (p_status p) New,
      last_contacted = p_last_contacted p,
      notes_lead = Some (override (p_notes p) [])\<rparr>"
  by (cases "p_last_contacted p"; cases "p_notes p")
     (simp_all add: addLead_new_def spread_def Let_def override_or_else override_idem)




section \<open>Id and timestamp across the operations\<close>

text \<open>
  Claim C9, as stated, fails: \<^verbatim>\<open>updateLead\<close> with a record of the same id and another
  timestamp changes the timestamp of the stored lead, and \<^verbatim>\<open>addLead\<close> takes the id and
  the timestamp that the caller's partial record brings.
\<close>

theorem C9_counterexample:
  "timestamp connor = 2000
   \<and> id_lead (connor\<lparr>timestamp := 0\<rparr>) = id_lead connor
   \<and> updateLead (connor\<lparr>timestamp := 0\<rparr>) (Some (Json [connor]))
        = Inr ([connor\<lparr>timestamp := 0\<rparr>], Some (Json [connor\<lparr>timestamp := 0\<rparr>]))
   \<and> timestamp (connor\<lparr>timestamp := 0\<rparr>) = 0
   \<and> id_lead (addLead_new 5 ''k3x9q0z1a'' 7 (no_fields_v2\<lparr>p_id := Some ''mine'', p_timestamp := Some 1\<rparr>))
        = ''mine''
   \<and> timestamp (addLead_new 5 ''k3x9q0z1a'' 7 (no_fields_v2\<lparr>p_id := Some ''mine'', p_timestamp := Some 1\<rparr>))
        = 1"
  by (simp add: updateLead_def saveLeads_def Let_def connor_def addLead_new_def spread_def
      no_fields_v2_def)

text \<open>
  Claim C9, amended. \<^verbatim>\<open>updateStatus\<close> keeps the id and the timestamp of every lead;
  \<^verbatim>\<open>deleteLead\<close> keeps the leads with another id as they are, in order;
  \<^verbatim>\<open>updateLead\<close> keeps the id of every lead and the timestamp of every lead with another
  id, and gives the leads with the id of the caller's record the timestamp that this
  record carries; \<^verbatim>\<open>addLead\<close> keeps the leads of the collection as they are and gives
  the new lead the id and the timestamp of the caller's partial record when it has them,
  the generated token and the clock otherwise.
\<close>

theorem C9_id_timestamp:
  assumes "getLeads sto = Inr ls"
  shows "(\<exists>r sto' ls'. updateStatus now i st sto = Inr (r, sto') \<and> getLeads sto' = Inr ls'
            \<and> map id_lead ls' = map id_lead ls \<and> map timestamp ls' = map timestamp ls)
       \<and> (\<exists>sto'. deleteLead i sto = Inr (filter (\<lambda>l. id_lead l \<noteq> i) ls, sto')
            \<and> getLeads sto' = Inr (filter (\<lambda>l. id_lead l \<noteq> i) ls))
       \<and> (\<exists>ls' sto'. updateLead u sto = Inr (ls', sto') \<and> getLeads sto' = Inr ls'
            \<and> map id_lead ls' = map id_lead ls
            \<and> (\<forall>j<length ls. timestamp (ls' ! j)
                  = (if id_lead (ls ! j) = id_lead u then timestamp u else timestamp (ls ! j))))
       \<and> (\<exists>new sto'. addLead now token r p sto = Inr (new # ls, sto')
            \<and> getLeads sto' = Inr (new # ls)
            \<and> id_lead new = override (p_id p) token
            \<and> timestamp new = override (p_timestamp p) now)"
proof -
  have a: "\<exists>r sto' ls'. updateStatus now i st sto = Inr (r, sto') \<and> getLeads sto' = Inr ls'
            \<and> map id_lead ls' = map id_lead ls \<and> map timestamp ls' = map timestamp ls"
  proof (cases "findIndex (\<lambda>l. id_lead l = i) ls")
    case None
    from updateStatus_missing [OF assms None, of now st] assms show ?thesis by simp
  next
    case (Some k)
    from updateStatus_found [OF assms Some, of now st] show ?thesis
      by (simp add: map_id_set_status map_timestamp_set_status)
  qed
  have b: "\<exists>sto'. deleteLead i sto = Inr (filter (\<lambda>l. id_lead l \<noteq> i) ls, sto')
            \<and> getLeads sto' = Inr (filter (\<lambda>l. id_lead l \<noteq> i) ls)"
    using assms by (simp add: deleteLead_def saveLeads_def Let_def)
  let ?ls' = "map (\<lambda>l. if id_lead l = id_lead u then u else l) ls"
  have "updateLead u sto = Inr (?ls', Some (Json ?ls'))"
    using assms by (simp add: updateLead_def saveLeads_def Let_def)
  moreover have "map id_lead ?ls' = map id_lead ls"
    by (rule map_id_update)
  moreover have "\<forall>j<length ls. timestamp (?ls' ! j)
                  = (if id_lead (ls ! j) = id_lead u then timestamp u else timestamp (ls ! j))"
    by simp
  ultimately have c: "\<exists>ls' sto'. updateLead u sto = Inr (ls', sto') \<and> getLeads sto' = Inr ls'
            \<and> map id_lead ls' = map id_lead ls
            \<and> (\<forall>j<length ls. timestamp (ls' ! j)
                  = (if id_lead (ls ! j) = id_lead u then timestamp u else timestamp (ls ! j)))"
    by (intro exI [of _ ?ls'] exI [of _ "Some (Json ?ls')"]) simp
  have "addLead now token r p sto
          = Inr (addLead_new now token r p # ls, Some (Json (addLead_new now token r p # ls)))"
    using assms by (simp add: addLead_def saveLeads_def Let_def)
  then have d: "\<exists>new sto'. addLead now token r p sto = Inr (new # ls, sto')
            \<and> getLeads sto' = Inr (new # ls)
            \<and> id_lead new = override (p_id p) token
            \<and> timestamp new = override (p_timestamp p) now"
    by (intro exI [of _ "addLead_new now token r p"]
          exI [of _ "Some (Json (addLead_new now token r p # ls))"])
       (simp add: addLead_new_fields)
  from a b c d show ?thesis by (intro conjI)
qed

text \<open>
  The theorem at the collection of the second program's first seeded lead: a status
  update, a delete of another id and an update that changes the status only keep its id
  and its timestamp.
\<close>

theorem C9_witness:
  "getLeads (Some (Json [connor])) = Inr [connor]
   \<and> updateStatus 7 ''c0nn0r5ky'' Lost (Some (Json [connor]))
        = Inr (Some (connor\<lparr>status := Lost\<rparr>), Some (Json [connor\<lparr>status := Lost\<rparr>]))
   \<and> id_lead (connor\<lparr>status := Lost\<rparr>) = id_lead connor
   \<and> timestamp (connor\<lparr>status := Lost\<rparr>) = timestamp connor"
proof -
  have g: "getLeads (Some (Json [connor])) = Inr [connor]"
    by simp
  from C9_id_timestamp [OF g, where now = 7 and i = "''c0nn0r5ky''" and st = Lost]
  obtain r sto' ls'
    where u: "updateStatus 7 ''c0nn0r5ky'' Lost (Some (Json [connor])) = Inr (r, sto')"
      and g': "getLeads sto' = Inr ls'"
      and ids: "map id_lead ls' = map id_lead [connor]"
      and ts: "map timestamp ls' = map timestamp [connor]"
    by blast
  have f: "findIndex (\<lambda>l. id_lead l = ''c0nn0r5ky'') [connor] = Some 0"
    by (simp add: connor_def addLead_new_def spread_def no_fields_v2_def)
  have u': "updateStatus 7 ''c0nn0r5ky'' Lost (Some (Json [connor]))
        = Inr (Some (connor\<lparr>status := Lost\<rparr>), Some (Json [connor\<lparr>status := Lost\<rparr>]))"
    using updateStatus_found [OF g f, of 7 Lost] by (simp add: set_status_eq)
  from u u' have "sto' = Some (Json [connor\<lparr>status := Lost\<rparr>])"
    by simp
  with g' have "ls' = [connor\<lparr>status := Lost\<rparr>]"
    by simp
  with ids ts have "id_lead (connor\<lparr>status := Lost\<rparr>) = id_lead connor"
    and "timestamp (connor\<lparr>status := Lost\<rparr>) = timestamp connor"
    by (simp_all only: list.map list.inject)
  with g u' show ?thesis by (intro conjI)
qed

end
